theory Spec2Isabelle
  imports Main "HOL-Library.Sublist"
begin

section \<open>The indentation scanner (package core, type Scanner)\<close>

text \<open>
  A rune is a Unicode code point (Go's \<open>rune\<close>, a 32-bit integer); a Go string that
  the scanner builds with \<open>string(rs)\<close> is kept as the list of its runes.
\<close>

type_synonym rune = int

datatype TokenType = Invalid | Annotation | LineString | Indent | Unindent | EOF | SOF

datatype Token = Token (Type: TokenType) (Text: "rune list")

text \<open>
  The values of the field \<open>err\<close>: \<open>io.EOF\<close>, \<open>errInvalidCodePoint\<close>, the
  error made by \<open>errors.New("mismatch indent")\<close>, and the error of an
  \<open>UnreadRune\<close> that has no rune to give back.
\<close>

datatype scan_error = ErrEOF | ErrInvalidCodePoint | ErrMismatchIndent | ErrUnreadRune

text \<open>
  Modelled from the spec: the character source. The scanner reads from an
  \<open>io.RuneScanner\<close>, an interface of the Go library whose implementation is not part of
  the repository. The spec (section 6) describes it as a sequence of code points with a
  push-back of one symbol, whose end is a condition and not a character: \<open>rest\<close> are
  the runes still to read, \<open>last_read\<close> the rune that \<open>UnreadRune\<close> may give back
  (only the operation right after a successful \<open>ReadRune\<close> may). At the end
  \<open>ReadRune\<close> returns the rune 0 and \<open>io.EOF\<close>. A byte sequence that is not
  UTF-8 reaches the scanner as the rune \<open>0xFFFD\<close>.
\<close>

record reader =
  rest :: "rune list"
  last_read :: "rune option"

definition ReadRune :: "reader \<Rightarrow> rune \<times> scan_error option \<times> reader" where
  "ReadRune rd =
     (case rest rd of
        [] \<Rightarrow> (0, Some ErrEOF, rd\<lparr>last_read := None\<rparr>)
      | c # cs \<Rightarrow> (c, None, rd\<lparr>rest := cs, last_read := Some c\<rparr>))"

definition UnreadRune :: "reader \<Rightarrow> scan_error option \<times> reader" where
  "UnreadRune rd =
     (case last_read rd of
        None \<Rightarrow> (Some ErrUnreadRune, rd)
      | Some c \<Rightarrow> (None, rd\<lparr>rest := c # rest rd, last_read := None\<rparr>))"

record Scanner =
  r :: reader
  ch :: rune
  indents :: "rune list list"
  toks :: "Token list"
  err :: "scan_error option"

definition NewScanner :: "rune list \<Rightarrow> Scanner" where
  "NewScanner input =
     \<lparr>r = \<lparr>rest = input, last_read = None\<rparr>, ch = 0, indents = [[]],
      toks = [Token SOF []], err = None\<rparr>"

definition ReplacementChar :: rune where
  "ReplacementChar = 0xFFFD"

text \<open>
  \<open>next\<close>: read one rune into \<open>ch\<close>; tab, space, CR and LF pass, the replacement
  character and every other rune from 0x00 to 0x19 set \<open>errInvalidCodePoint\<close>.
\<close>

definition nextc :: "Scanner \<Rightarrow> bool \<times> Scanner" where
  "nextc s =
     (case ReadRune (r s) of (c, e, rd) \<Rightarrow>
        (let s1 = s\<lparr>r := rd, ch := c, err := e\<rparr> in
         if e \<noteq> None then (False, s1)
         else if c = 9 \<or> c = 32 \<or> c = 13 \<or> c = 10 then (True, s1)
         else if c = ReplacementChar then (False, s1\<lparr>err := Some ErrInvalidCodePoint\<rparr>)
         else if 0 \<le> c \<and> c \<le> 0x19 then (False, s1\<lparr>err := Some ErrInvalidCodePoint\<rparr>)
         else (True, s1)))"

definition prev :: "Scanner \<Rightarrow> bool \<times> Scanner" where
  "prev s = (case UnreadRune (r s) of (e, rd) \<Rightarrow> (e = None, s\<lparr>r := rd, err := e\<rparr>))"

definition addTok :: "Token \<Rightarrow> Scanner \<Rightarrow> Scanner" where
  "addTok tok s = s\<lparr>toks := toks s @ [tok]\<rparr>"

lemma nextc_rest:
  "nextc s = (True, s') \<Longrightarrow> length (rest (r s')) < length (rest (r s))"
  by (auto simp: nextc_def ReadRune_def Let_def split: list.splits if_splits)

lemma nextc_rest_sym:
  "(True, s') = nextc s \<Longrightarrow> length (rest (r s')) < length (rest (r s))"
  by (rule nextc_rest) simp

text \<open>\<open>indentSpaces\<close>: the loop that collects the leading spaces and tabs.\<close>

function indentSpaces_loop :: "rune list \<Rightarrow> Scanner \<Rightarrow> rune list \<times> bool \<times> Scanner" where
  "indentSpaces_loop rs s =
     (case nextc s of
        (False, s1) \<Rightarrow> ([], False, s1)
      | (True, s1) \<Rightarrow>
          if ch s1 \<noteq> 32 \<and> ch s1 \<noteq> 9 then (rs, True, snd (prev s1))
          else indentSpaces_loop (rs @ [ch s1]) s1)"
  by pat_completeness auto
termination
  by (relation "measure (\<lambda>(rs, s). length (rest (r s)))") (simp_all add: nextc_rest_sym)

declare indentSpaces_loop.simps [simp del]

definition indentSpaces :: "Scanner \<Rightarrow> rune list \<times> bool \<times> Scanner" where
  "indentSpaces s = indentSpaces_loop [] s"

text \<open>\<open>newlineSpaces\<close>: the loop that skips line breaks.\<close>

function newlineSpaces_loop :: "Scanner \<Rightarrow> bool \<Rightarrow> bool \<times> bool \<times> Scanner" where
  "newlineSpaces_loop s hasNewline =
     (case nextc s of
        (False, s1) \<Rightarrow> (hasNewline, False, s1)
      | (True, s1) \<Rightarrow>
          if ch s1 = 13 \<or> ch s1 = 10 then newlineSpaces_loop s1 True
          else (hasNewline, True, snd (prev s1)))"
  by pat_completeness auto
termination
  by (relation "measure (\<lambda>(s, b). length (rest (r s)))") (simp_all add: nextc_rest_sym)

declare newlineSpaces_loop.simps [simp del]

definition newlineSpaces :: "Scanner \<Rightarrow> bool \<times> bool \<times> Scanner" where
  "newlineSpaces s = newlineSpaces_loop s False"


text \<open>
  After a successful \<open>next\<close> the rune just read can be given back: \<open>prev\<close> then
  leaves the reader where it was before, with \<open>err\<close> cleared.
\<close>

lemma nextc_True:
  assumes "nextc s = (True, s1)"
  shows "rest (r s) = ch s1 # rest (r s1)" and "last_read (r s1) = Some (ch s1)"
    and "err s1 = None" and "indents s1 = indents s" and "toks s1 = toks s"
  using assms
  by (auto simp: nextc_def ReadRune_def Let_def split: list.splits if_splits)

lemma nextc_False:
  assumes "nextc s = (False, s1)"
  shows "err s1 = Some ErrEOF \<or> err s1 = Some ErrInvalidCodePoint"
    and "indents s1 = indents s" and "toks s1 = toks s"
    and "length (rest (r s1)) \<le> length (rest (r s))"
  using assms
  by (auto simp: nextc_def ReadRune_def Let_def split: list.splits if_splits)

lemma nextc_prev:
  assumes "nextc s = (True, s1)"
  shows "prev s1 = (True, s1\<lparr>r := \<lparr>rest = rest (r s), last_read = None\<rparr>, err := None\<rparr>)"
  using assms
  by (auto simp: nextc_def prev_def ReadRune_def UnreadRune_def Let_def
      split: list.splits if_splits)

lemma indentSpaces_loop_rest:
  "indentSpaces_loop rs s = (ind, ok, s') \<Longrightarrow> length (rest (r s')) \<le> length (rest (r s))"
proof (induction rs s rule: indentSpaces_loop.induct)
  case (1 rs s)
  obtain b s1 where n: "nextc s = (b, s1)" by (cases "nextc s")
  show ?case
  proof (cases b)
    case False
    with n "1.prems" nextc_False(4)[of s s1] show ?thesis
      by (simp add: indentSpaces_loop.simps[of rs s])
  next
    case True
    with n have nT: "nextc s = (True, s1)" by simp
    show ?thesis
    proof (cases "ch s1 \<noteq> 32 \<and> ch s1 \<noteq> 9")
      case True
      with nT "1.prems" nextc_prev[OF nT] show ?thesis
        by (auto simp add: indentSpaces_loop.simps[of rs s])
    next
      case False
      with nT "1.prems" have "indentSpaces_loop (rs @ [ch s1]) s1 = (ind, ok, s')"
        by (auto simp add: indentSpaces_loop.simps[of rs s])
      from "1.IH"[OF nT[symmetric] refl False this] nextc_rest[OF nT] show ?thesis by simp
    qed
  qed
qed

lemma newlineSpaces_loop_rest:
  "newlineSpaces_loop s b = (h, ok, s') \<Longrightarrow>
     length (rest (r s')) \<le> length (rest (r s)) \<and>
     (h \<and> \<not> b \<longrightarrow> length (rest (r s')) < length (rest (r s)))"
proof (induction s b rule: newlineSpaces_loop.induct)
  case (1 s b)
  obtain b1 s1 where n: "nextc s = (b1, s1)" by (cases "nextc s")
  show ?case
  proof (cases b1)
    case False
    with n "1.prems" nextc_False(4)[of s s1] show ?thesis
      by (auto simp add: newlineSpaces_loop.simps[of s b])
  next
    case True
    with n have nT: "nextc s = (True, s1)" by simp
    show ?thesis
    proof (cases "ch s1 = 13 \<or> ch s1 = 10")
      case True
      with nT "1.prems" have "newlineSpaces_loop s1 True = (h, ok, s')"
        by (auto simp add: newlineSpaces_loop.simps[of s b])
      from "1.IH"[OF nT[symmetric] refl True this] nextc_rest[OF nT] show ?thesis by simp
    next
      case False
      with nT "1.prems" nextc_prev[OF nT] show ?thesis
        by (auto simp add: newlineSpaces_loop.simps[of s b])
    qed
  qed
qed

lemma indentSpaces_rest:
  "indentSpaces s = (ind, ok, s') \<Longrightarrow> length (rest (r s')) \<le> length (rest (r s))"
  unfolding indentSpaces_def by (rule indentSpaces_loop_rest)

lemma newlineSpaces_rest:
  "newlineSpaces s = (True, ok, s') \<Longrightarrow> length (rest (r s')) < length (rest (r s))"
  unfolding newlineSpaces_def by (drule newlineSpaces_loop_rest) simp

text \<open>\<open>scanIndent\<close>: measure the indent of the next line that is not blank.\<close>

function scanIndent :: "Scanner \<Rightarrow> rune list \<times> bool \<times> Scanner" where
  "scanIndent s =
     (case indentSpaces s of (indent, ok, s1) \<Rightarrow>
        if \<not> ok then (indent, False, s1)
        else (case newlineSpaces s1 of (hasNewline, ok2, s2) \<Rightarrow>
          if \<not> ok2 then (indent, False, s2)
          else if \<not> hasNewline then (indent, True, s2)
          else scanIndent s2))"
  by pat_completeness auto
termination
proof (relation "measure (\<lambda>s. length (rest (r s)))", goal_cases)
  case 1
  show ?case by simp
next
  case (2 s indent y ok s1 hasNewline y2 ok2 s2)
  from 2 have a: "indentSpaces s = (indent, ok, s1)" by simp
  from 2 have b: "newlineSpaces s1 = (True, ok2, s2)" by simp
  from indentSpaces_rest[OF a] newlineSpaces_rest[OF b] show ?case by simp
qed

declare scanIndent.simps [simp del]

text \<open>
  \<open>calcIndent\<close>: 0 for the indent of the top of the stack, 1 for an extension of it,
  \<open>-i\<close> for the entry \<open>i\<close> places below the top, and \<open>false\<close> when no entry is
  equal. \<open>s.indents[len(s.indents)-1]\<close> on an empty stack is an index out of range:
  the model returns \<open>None\<close> where Go panics.
\<close>

function calcIndent_loop :: "rune list list \<Rightarrow> rune list \<Rightarrow> nat \<Rightarrow> int \<times> bool" where
  "calcIndent_loop idts indent i =
     (if i < length idts then
        (if indent = idts ! (length idts - i - 1) then (- int i, True)
         else calcIndent_loop idts indent (i + 1))
      else (0, False))"
  by pat_completeness auto
termination
  by (relation "measure (\<lambda>(idts, indent, i). length idts - i)") auto

declare calcIndent_loop.simps [simp del]

definition calcIndent :: "Scanner \<Rightarrow> rune list \<Rightarrow> (int \<times> bool) option" where
  "calcIndent s indent =
     (if indents s = [] then None
      else (let lst = indents s ! (length (indents s) - 1) in
        if indent = lst then Some (0, True)
        else if prefix lst indent then Some (1, True)
        else Some (calcIndent_loop (indents s) indent 1)))"

text \<open>\<open>inline\<close>: the rest of the line, up to the line break, which is given back.\<close>

function inline_loop :: "rune list \<Rightarrow> Scanner \<Rightarrow> rune list \<times> Scanner" where
  "inline_loop rs s =
     (case nextc s of
        (False, s1) \<Rightarrow> (rs, s1)
      | (True, s1) \<Rightarrow>
          if ch s1 = 13 \<or> ch s1 = 10 then (rs, snd (prev s1))
          else inline_loop (rs @ [ch s1]) s1)"
  by pat_completeness auto
termination
  by (relation "measure (\<lambda>(rs, s). length (rest (r s)))") (simp_all add: nextc_rest_sym)

declare inline_loop.simps [simp del]

definition inline :: "Scanner \<Rightarrow> rune list \<times> Scanner" where
  "inline s = inline_loop [] s"

text \<open>
  \<open>afterIndent\<close>: an annotation when \<open>ch\<close> is \<open>#\<close> (35), a line string otherwise.
  \<open>s.inline()[1:]\<close> cuts the first byte of the string: on the empty string Go panics,
  and a first rune of several bytes would be cut inside its encoding, which a list of
  runes cannot hold; the model returns \<open>None\<close> in both cases.
\<close>

definition afterIndent :: "Scanner \<Rightarrow> Scanner option" where
  "afterIndent s =
     (if ch s = 35 then
        (case inline s of (str, s1) \<Rightarrow>
           (case str of
              [] \<Rightarrow> None
            | c # cs \<Rightarrow> if 0 \<le> c \<and> c < 128 then Some (addTok (Token Annotation cs) s1) else None))
      else (case inline s of (str, s1) \<Rightarrow> Some (addTok (Token LineString str) s1)))"

fun addToks :: "nat \<Rightarrow> Token \<Rightarrow> Scanner \<Rightarrow> Scanner" where
  "addToks 0 tok s = s"
| "addToks (Suc k) tok s = addToks k tok (addTok tok s)"

text \<open>
  \<open>scanLine\<close>. In the last case \<open>s.indents[:len(s.indents)-n]\<close> panics when \<open>n\<close>
  is more than the length (\<open>None\<close>); the tokens are added by the loop
  \<open>for i := 0; i < n; i++\<close>.
\<close>

definition scanLine :: "Scanner \<Rightarrow> Scanner option" where
  "scanLine s =
     (case scanIndent s of (indent, ok, s1) \<Rightarrow>
        if \<not> ok then Some s1
        else (case calcIndent s1 indent of
            None \<Rightarrow> None
          | Some (n, ok2) \<Rightarrow>
              if \<not> ok2 then Some (s1\<lparr>err := Some ErrMismatchIndent\<rparr>)
              else if n = 0 then afterIndent s1
              else if n = 1 then
                afterIndent (addTok (Token Indent []) (s1\<lparr>indents := indents s1 @ [indent]\<rparr>))
              else (let m = - n in
                if int (length (indents s1)) - m < 0 then None
                else Some (addToks (nat m) (Token Unindent [])
                       (s1\<lparr>indents := take (nat (int (length (indents s1)) - m)) (indents s1)\<rparr>)))))"

definition handleEOF :: "Scanner \<Rightarrow> Scanner" where
  "handleEOF s =
     (if err s = Some ErrEOF then
        addTok (Token EOF [])
          (if length (indents s) > 1 then
             (addToks (length (indents s) - 1) (Token Unindent []) s)\<lparr>indents := take 1 (indents s)\<rparr>
           else s)
      else s)"

text \<open>
  \<open>Scan\<close>: \<open>s.toks[1:]\<close> panics on an empty queue (\<open>None\<close>), which is what a call
  of \<open>Scan\<close> after one that returned \<open>false\<close> does.
\<close>

definition Scan :: "Scanner \<Rightarrow> (bool \<times> Scanner) option" where
  "Scan s =
     (case toks s of
        [] \<Rightarrow> None
      | t # ts \<Rightarrow>
          (let s1 = s\<lparr>toks := ts\<rparr> in
           if length (toks s1) > 0 then Some (True, s1)
           else if err s1 \<noteq> None then Some (False, s1)
           else (case scanLine s1 of
               None \<Rightarrow> None
             | Some s2 \<Rightarrow> (let s3 = handleEOF s2 in Some (length (toks s3) > 0, s3)))))"

definition Token_of :: "Scanner \<Rightarrow> Token option" where
  "Token_of s = (case toks s of [] \<Rightarrow> None | t # ts \<Rightarrow> Some t)"

definition Err :: "Scanner \<Rightarrow> scan_error option" where
  "Err s = (if err s = Some ErrEOF then None else err s)"

subsection \<open>Facts about one line scan\<close>

text \<open>The runes that \<open>next\<close> accepts.\<close>

definition valid_rune :: "rune \<Rightarrow> bool" where
  "valid_rune c =
     (c = 9 \<or> c = 32 \<or> c = 13 \<or> c = 10 \<or> (c \<noteq> ReplacementChar \<and> \<not> (0 \<le> c \<and> c \<le> 0x19)))"

lemma nextc_cases:
  "nextc s =
     (case rest (r s) of
        [] \<Rightarrow> (False, s\<lparr>r := (r s)\<lparr>last_read := None\<rparr>, ch := 0, err := Some ErrEOF\<rparr>)
      | c # cs \<Rightarrow>
          if valid_rune c
          then (True, s\<lparr>r := (r s)\<lparr>rest := cs, last_read := Some c\<rparr>, ch := c, err := None\<rparr>)
          else (False, s\<lparr>r := (r s)\<lparr>rest := cs, last_read := Some c\<rparr>, ch := c,
                        err := Some ErrInvalidCodePoint\<rparr>))"
  by (auto simp: nextc_def ReadRune_def valid_rune_def Let_def split: list.splits)

text \<open>
  \<open>adv s s'\<close>: the reader of \<open>s'\<close> is the reader of \<open>s\<close> moved forward over
  runes that \<open>next\<close> accepted (or, when \<open>s'\<close> holds \<open>errInvalidCodePoint\<close>, over
  a rune that it refused), no
  \<open>UnreadRune\<close> has failed, and \<open>io.EOF\<close> is held only at the end of the input.
  \<open>peek s c\<close>: the rune \<open>c\<close> was read and given back, so it is the next one.
\<close>

definition adv :: "Scanner \<Rightarrow> Scanner \<Rightarrow> bool" where
  "adv s s' =
     ((\<exists>pre. rest (r s) = pre @ rest (r s') \<and>
             (err s' \<noteq> Some ErrInvalidCodePoint \<longrightarrow> (\<forall>c \<in> set pre. valid_rune c)) \<and>
             (err s' = Some ErrInvalidCodePoint \<longrightarrow> (\<exists>c \<in> set pre. \<not> valid_rune c))) \<and>
      err s' \<noteq> Some ErrUnreadRune \<and>
      (err s' = Some ErrEOF \<longrightarrow> rest (r s') = []))"

definition peek :: "Scanner \<Rightarrow> rune \<Rightarrow> bool" where
  "peek s c = (err s = None \<and> last_read (r s) = None \<and> ch s = c \<and> valid_rune c \<and>
               (\<exists>cs. rest (r s) = c # cs))"

lemma adv_trans: "adv s s1 \<Longrightarrow> err s1 \<noteq> Some ErrInvalidCodePoint \<Longrightarrow> adv s1 s2 \<Longrightarrow> adv s s2"
  unfolding adv_def by (elim conjE exE) (rule conjI, rule_tac x="pre @ prea" in exI, auto)

lemma nextc_adv:
  assumes "nextc s = (b, s1)"
  shows "adv s s1" and "indents s1 = indents s" and "toks s1 = toks s"
    and "\<not> b \<Longrightarrow> err s1 \<noteq> None"
    and "b \<Longrightarrow> err s1 = None \<and> valid_rune (ch s1) \<and> rest (r s) = ch s1 # rest (r s1)"
  using assms
  by (auto simp: nextc_cases adv_def split: list.splits if_splits)

lemma nextc_prev_peek:
  assumes "nextc s = (True, s1)"
  shows "peek (snd (prev s1)) (ch s1)" and "rest (r (snd (prev s1))) = rest (r s)"
    and "indents (snd (prev s1)) = indents s" and "toks (snd (prev s1)) = toks s"
    and "adv s (snd (prev s1))"
  using assms
  by (auto simp: nextc_cases prev_def UnreadRune_def peek_def adv_def split: list.splits if_splits)

lemma adv_refl_None: "err s = None \<Longrightarrow> adv s s"
  by (simp add: adv_def)


lemma indentSpaces_loop_spec:
  "indentSpaces_loop rs s = (ind, ok, s') \<Longrightarrow>
     adv s s' \<and> indents s' = indents s \<and> toks s' = toks s \<and>
     (\<not> ok \<longrightarrow> err s' \<noteq> None) \<and>
     (ok \<longrightarrow> length (rest (r s')) + length ind \<le> length (rest (r s)) + length rs \<and>
            (\<exists>c. peek s' c \<and> c \<noteq> 32 \<and> c \<noteq> 9))"
proof (induction rs s rule: indentSpaces_loop.induct)
  case (1 rs s)
  obtain b s1 where n: "nextc s = (b, s1)" by (cases "nextc s")
  show ?case
  proof (cases b)
    case False
    with n "1.prems" nextc_adv[OF n] show ?thesis
      by (simp add: indentSpaces_loop.simps[of rs s])
  next
    case True
    with n have nT: "nextc s = (True, s1)" by simp
    show ?thesis
    proof (cases "ch s1 \<noteq> 32 \<and> ch s1 \<noteq> 9")
      case True
      with nT "1.prems" have e: "ind = rs" "ok" "s' = snd (prev s1)"
        by (auto simp add: indentSpaces_loop.simps[of rs s])
      from nextc_prev_peek[OF nT] True e show ?thesis by auto
    next
      case False
      with nT "1.prems" have "indentSpaces_loop (rs @ [ch s1]) s1 = (ind, ok, s')"
        by (auto simp add: indentSpaces_loop.simps[of rs s])
      from "1.IH"[OF nT[symmetric] refl False this] nextc_adv[OF nT] show ?thesis
        by (auto intro: adv_trans)
    qed
  qed
qed

lemma newlineSpaces_loop_spec:
  "newlineSpaces_loop s b = (h, ok, s') \<Longrightarrow>
     adv s s' \<and> indents s' = indents s \<and> toks s' = toks s \<and>
     (\<not> ok \<longrightarrow> err s' \<noteq> None) \<and>
     (ok \<longrightarrow> (\<exists>c. peek s' c \<and> c \<noteq> 13 \<and> c \<noteq> 10) \<and>
            (\<not> h \<longrightarrow> rest (r s') = rest (r s)))"
proof (induction s b rule: newlineSpaces_loop.induct)
  case (1 s b)
  obtain b1 s1 where n: "nextc s = (b1, s1)" by (cases "nextc s")
  show ?case
  proof (cases b1)
    case False
    with n "1.prems" nextc_adv[OF n] show ?thesis
      by (auto simp add: newlineSpaces_loop.simps[of s b])
  next
    case True
    with n have nT: "nextc s = (True, s1)" by simp
    show ?thesis
    proof (cases "ch s1 = 13 \<or> ch s1 = 10")
      case True
      with nT "1.prems" have a: "newlineSpaces_loop s1 True = (h, ok, s')"
        by (auto simp add: newlineSpaces_loop.simps[of s b])
      have "h \<or> \<not> ok" using a
        by (induction s1 "True" arbitrary: rule: newlineSpaces_loop.induct)
           (subst (asm) (2) newlineSpaces_loop.simps, auto split: prod.splits bool.splits if_splits)
      with "1.IH"[OF nT[symmetric] refl True a] nextc_adv[OF nT] show ?thesis
        by (auto intro: adv_trans)
    next
      case False
      with nT "1.prems" have e: "h = b" "ok" "s' = snd (prev s1)"
        by (auto simp add: newlineSpaces_loop.simps[of s b])
      from nextc_prev_peek[OF nT] False e show ?thesis by auto
    qed
  qed
qed


lemma peek_unique: "peek s c \<Longrightarrow> peek s d \<Longrightarrow> c = d"
  by (simp add: peek_def)

lemma peek_rest: "peek s c \<Longrightarrow> rest (r s') = rest (r s) \<Longrightarrow> peek s' d \<Longrightarrow> c = d"
  by (auto simp add: peek_def)

lemma scanIndent_spec:
  "scanIndent s = (ind, ok, s') \<Longrightarrow>
     adv s s' \<and> indents s' = indents s \<and> toks s' = toks s \<and>
     (\<not> ok \<longrightarrow> err s' \<noteq> None) \<and>
     (ok \<longrightarrow> length (rest (r s')) + length ind \<le> length (rest (r s)) \<and>
            (\<exists>c. peek s' c \<and> c \<noteq> 13 \<and> c \<noteq> 10 \<and> c \<noteq> 32 \<and> c \<noteq> 9))"
proof (induction s rule: scanIndent.induct)
  case (1 s)
  obtain i1 ok1 s1 where a: "indentSpaces s = (i1, ok1, s1)" by (cases "indentSpaces s")
  note A = indentSpaces_loop_spec[OF a[unfolded indentSpaces_def]]
  show ?case
  proof (cases ok1)
    case False
    with a "1.prems" have "ind = i1" "ok = False" "s' = s1"
      by (simp_all add: scanIndent.simps[of s])
    with A False show ?thesis by simp
  next
    case ok1: True
    from A ok1 obtain c1 where c1: "peek s1 c1" "c1 \<noteq> 32" "c1 \<noteq> 9" by auto
    then have e1: "err s1 = None" by (simp add: peek_def)
    obtain h ok2 s2 where b: "newlineSpaces s1 = (h, ok2, s2)" by (cases "newlineSpaces s1")
    note B = newlineSpaces_loop_spec[OF b[unfolded newlineSpaces_def]]
    from A B e1 have adv2: "adv s s2" by (auto intro: adv_trans)
    show ?thesis
    proof (cases ok2)
      case False
      with a b ok1 "1.prems" have "ind = i1" "ok = False" "s' = s2"
        by (simp_all add: scanIndent.simps[of s])
      with A B False adv2 show ?thesis by simp
    next
      case ok2: True
      show ?thesis
      proof (cases h)
        case False
        with a b ok1 ok2 "1.prems" have e: "ind = i1" "ok = True" "s' = s2"
          by (simp_all add: scanIndent.simps[of s])
        from B ok2 False obtain c2 where c2: "peek s2 c2" "c2 \<noteq> 13" "c2 \<noteq> 10"
          and rr: "rest (r s2) = rest (r s1)" by auto
        from peek_rest[OF c1(1) rr c2(1)] have "c1 = c2" .
        with c1 c2 have "\<exists>c. peek s2 c \<and> c \<noteq> 13 \<and> c \<noteq> 10 \<and> c \<noteq> 32 \<and> c \<noteq> 9" by auto
        with A B ok1 adv2 rr e show ?thesis by simp
      next
        case True
        with a b ok1 ok2 "1.prems" have e: "scanIndent s2 = (ind, ok, s')"
          by (simp add: scanIndent.simps[of s])
        have IH: "adv s2 s' \<and> indents s' = indents s2 \<and> toks s' = toks s2 \<and>
           (\<not> ok \<longrightarrow> err s' \<noteq> None) \<and>
           (ok \<longrightarrow> length (rest (r s')) + length ind \<le> length (rest (r s2)) \<and>
            (\<exists>c. peek s' c \<and> c \<noteq> 13 \<and> c \<noteq> 10 \<and> c \<noteq> 32 \<and> c \<noteq> 9))"
          using "1.IH"[of i1 "(ok1, s1)" ok1 s1 h "(ok2, s2)" ok2 s2] a b ok1 ok2 True e by simp
        from B ok2 have e2: "err s2 = None" by (auto simp: peek_def)
        from IH have i1: "adv s2 s'" and i2: "indents s' = indents s2" and i3: "toks s' = toks s2"
          and i4: "\<not> ok \<longrightarrow> err s' \<noteq> None"
          and i5: "ok \<longrightarrow> length (rest (r s')) + length ind \<le> length (rest (r s2)) \<and>
            (\<exists>c. peek s' c \<and> c \<noteq> 13 \<and> c \<noteq> 10 \<and> c \<noteq> 32 \<and> c \<noteq> 9)" by blast+
        from adv2 i1 e2 have g1: "adv s s'" by (auto intro: adv_trans)
        from adv2 have "length (rest (r s2)) \<le> length (rest (r s))"
          by (auto simp: adv_def)
        with i5 have g5: "ok \<longrightarrow> length (rest (r s')) + length ind \<le> length (rest (r s)) \<and>
            (\<exists>c. peek s' c \<and> c \<noteq> 13 \<and> c \<noteq> 10 \<and> c \<noteq> 32 \<and> c \<noteq> 9)" by auto
        from A B i2 i3 have g2: "indents s' = indents s" and g3: "toks s' = toks s" by simp_all
        from g1 g2 g3 i4 g5 show ?thesis by blast
      qed
    qed
  qed
qed

lemma inline_loop_spec:
  "inline_loop rs s = (str, s') \<Longrightarrow>
     adv s s' \<and> indents s' = indents s \<and> toks s' = toks s \<and>
     length (rest (r s')) \<le> length (rest (r s)) \<and> (\<exists>suf. str = rs @ suf) \<and>
     (\<forall>c. peek s c \<and> c \<noteq> 13 \<and> c \<noteq> 10 \<longrightarrow>
        length (rest (r s')) < length (rest (r s)) \<and> (\<exists>suf. str = rs @ c # suf))"
proof (induction rs s rule: inline_loop.induct)
  case (1 rs s)
  obtain b s1 where n: "nextc s = (b, s1)" by (cases "nextc s")
  show ?case
  proof (cases b)
    case False
    with n "1.prems" have e: "str = rs" "s' = s1" by (simp_all add: inline_loop.simps[of rs s])
    from n False have "\<not> (\<exists>c. peek s c)"
      by (auto simp: nextc_cases peek_def split: list.splits if_splits)
    with e nextc_adv[OF n] False show ?thesis by (auto simp: adv_def)
  next
    case True
    with n have nT: "nextc s = (True, s1)" by simp
    from nextc_adv[OF nT] have c: "rest (r s) = ch s1 # rest (r s1)" by simp
    show ?thesis
    proof (cases "ch s1 = 13 \<or> ch s1 = 10")
      case True
      with nT "1.prems" have e: "str = rs" "s' = snd (prev s1)"
        by (auto simp add: inline_loop.simps[of rs s])
      from True c have "\<not> (\<exists>c. peek s c \<and> c \<noteq> 13 \<and> c \<noteq> 10)" by (auto simp: peek_def)
      with nextc_prev_peek[OF nT] e show ?thesis by auto
    next
      case False
      with nT "1.prems" have a: "inline_loop (rs @ [ch s1]) s1 = (str, s')"
        by (auto simp add: inline_loop.simps[of rs s])
      from "1.IH"[OF nT[symmetric] refl False a] nextc_adv[OF nT] c show ?thesis
        by (auto intro: adv_trans simp: peek_def)
    qed
  qed
qed

lemma calcIndent_loop_found:
  "i \<le> k \<Longrightarrow> k < length idts \<Longrightarrow> idts ! (length idts - 1 - k) = indent \<Longrightarrow>
   (\<forall>j. i \<le> j \<and> j < k \<longrightarrow> idts ! (length idts - 1 - j) \<noteq> indent) \<Longrightarrow>
   calcIndent_loop idts indent i = (- int k, True)"
proof (induction idts indent i rule: calcIndent_loop.induct)
  case (1 idts indent i)
  have comm: "\<And>j. length idts - j - 1 = length idts - 1 - j" by simp
  show ?case
  proof (cases "i = k")
    case True
    with 1(3,4) show ?thesis
      by (subst calcIndent_loop.simps) (simp only: comm if_True simp_thms)
  next
    case False
    with 1(2) have lt: "i < k" by simp
    with 1(5) have ne: "indent \<noteq> idts ! (length idts - i - 1)"
      unfolding comm by (metis le_refl)
    from lt 1(3) have il: "i < length idts" by simp
    from lt have "i + 1 \<le> k" by simp
    moreover from 1(5) have "\<forall>j. i + 1 \<le> j \<and> j < k \<longrightarrow> idts ! (length idts - 1 - j) \<noteq> indent"
      by simp
    ultimately have "calcIndent_loop idts indent (i + 1) = (- int k, True)"
      using 1(1)[OF il ne] 1(3,4) by blast
    with il ne show ?thesis
      by (subst calcIndent_loop.simps) (simp only: if_True if_False)
  qed
qed

lemma calcIndent_loop_none:
  "(\<forall>j. i \<le> j \<and> j < length idts \<longrightarrow> idts ! (length idts - 1 - j) \<noteq> indent) \<Longrightarrow>
   calcIndent_loop idts indent i = (0, False)"
proof (induction idts indent i rule: calcIndent_loop.induct)
  case (1 idts indent i)
  have comm: "\<And>j. length idts - j - 1 = length idts - 1 - j" by simp
  show ?case
  proof (cases "i < length idts")
    case False
    then show ?thesis by (subst calcIndent_loop.simps) (simp only: if_False)
  next
    case True
    with 1(2) have ne: "indent \<noteq> idts ! (length idts - i - 1)"
      unfolding comm by (metis le_refl)
    from 1(2) have "\<forall>j. i + 1 \<le> j \<and> j < length idts \<longrightarrow> idts ! (length idts - 1 - j) \<noteq> indent"
      by simp
    from 1(1)[OF True ne this] have "calcIndent_loop idts indent (i + 1) = (0, False)" .
    with True ne show ?thesis by (subst calcIndent_loop.simps) (simp only: if_True if_False)
  qed
qed

lemma calcIndent_loop_range:
  "calcIndent_loop idts indent i = (n, True) \<Longrightarrow>
   \<exists>k. n = - int k \<and> i \<le> k \<and> k < length idts"
proof (induction idts indent i rule: calcIndent_loop.induct)
  case (1 idts indent i)
  from 1(2) have p: "(if i < length idts then
        (if indent = idts ! (length idts - i - 1) then (- int i, True)
         else calcIndent_loop idts indent (i + 1))
      else (0, False)) = (n, True)" by (subst (asm) calcIndent_loop.simps)
  show ?case
  proof (cases "i < length idts")
    case False
    with p show ?thesis by simp
  next
    case True
    show ?thesis
    proof (cases "indent = idts ! (length idts - i - 1)")
      case eq: True
      with True p have "n = - int i" by (simp del: calcIndent_loop.simps)
      with True show ?thesis by auto
    next
      case False
      with True p have "calcIndent_loop idts indent (i + 1) = (n, True)"
        by (simp only: if_True if_False)
      from 1(1)[OF True False this] show ?thesis by auto
    qed
  qed
qed


lemma addToks_eq: "addToks k tok s = s\<lparr>toks := toks s @ replicate k tok\<rparr>"
proof (induction k arbitrary: s)
  case 0
  show ?case by simp
next
  case (Suc k)
  show ?case by (simp add: Suc addTok_def replicate_app_Cons_same)
qed

text \<open>The number of \<open>Indent\<close> tokens of a list minus the number of \<open>Unindent\<close> tokens.\<close>

definition bal :: "Token list \<Rightarrow> int" where
  "bal ts = int (length (filter (\<lambda>t. Type t = Indent) ts)) -
            int (length (filter (\<lambda>t. Type t = Unindent) ts))"

lemma bal_simps [simp]:
  "bal [] = 0"
  "bal (xs @ ys) = bal xs + bal ys"
  "bal (Token Indent v # xs) = 1 + bal xs"
  "bal (Token Unindent v # xs) = bal xs - 1"
  "bal (Token LineString v # xs) = bal xs"
  "bal (Token Annotation v # xs) = bal xs"
  "bal (Token EOF v # xs) = bal xs"
  "bal (Token SOF v # xs) = bal xs"
  "bal (replicate k (Token Unindent v)) = - int k"
  by (simp_all add: bal_def)

lemma afterIndent_spec:
  assumes "peek s c" and "c \<noteq> 13" and "c \<noteq> 10"
  shows "\<exists>s' tok. afterIndent s = Some s' \<and> adv s s' \<and> indents s' = indents s \<and>
           toks s' = toks s @ [tok] \<and> (Type tok = Annotation \<or> Type tok = LineString) \<and>
           length (rest (r s')) < length (rest (r s))"
proof -
  obtain str s1 where i: "inline s = (str, s1)" by (cases "inline s")
  note I = inline_loop_spec[OF i[unfolded inline_def]]
  from I assms obtain suf where str: "str = c # suf" by auto
  from I assms have lt: "length (rest (r s1)) < length (rest (r s))" by blast
  from assms have chs: "ch s = c" by (simp add: peek_def)
  show ?thesis
  proof (cases "c = 35")
    case True
    with i str chs have "afterIndent s = Some (addTok (Token Annotation suf) s1)"
      by (simp add: afterIndent_def)
    with I lt show ?thesis by (auto simp: addTok_def adv_def)
  next
    case False
    with i chs have "afterIndent s = Some (addTok (Token LineString str) s1)"
      by (simp add: afterIndent_def)
    with I lt show ?thesis by (auto simp: addTok_def adv_def)
  qed
qed

lemma adv_upd [simp]:
  "adv s (s'\<lparr>indents := i\<rparr>) = adv s s'"
  "adv s (s'\<lparr>toks := t\<rparr>) = adv s s'"
  "adv (s\<lparr>indents := i\<rparr>) s' = adv s s'"
  "adv (s\<lparr>toks := t\<rparr>) s' = adv s s'"
  by (simp_all add: adv_def)

lemma peek_upd [simp]:
  "peek (s\<lparr>indents := i\<rparr>) c = peek s c"
  "peek (s\<lparr>toks := t\<rparr>) c = peek s c"
  by (simp_all add: peek_def)

lemma scanLine_spec:
  assumes ne: "indents s \<noteq> []"
  shows "\<exists>s' new. scanLine s = Some s' \<and> adv s s' \<and> indents s' \<noteq> [] \<and>
           hd (indents s') = hd (indents s) \<and> toks s' = toks s @ new \<and>
           bal new = int (length (indents s')) - int (length (indents s)) \<and>
           (\<forall>t \<in> set new. Type t \<noteq> EOF) \<and>
           (err s' = None \<longrightarrow> new \<noteq> [] \<and>
              length (rest (r s')) + length (indents s') < length (rest (r s)) + length (indents s))"
proof -
  obtain ind ok s1 where si: "scanIndent s = (ind, ok, s1)" by (cases "scanIndent s")
  note S = scanIndent_spec[OF si]
  show ?thesis
  proof (cases ok)
    case False
    with si have "scanLine s = Some s1" by (simp add: scanLine_def)
    with S False ne show ?thesis by auto
  next
    case ok: True
    from S ok obtain c where c: "peek s1 c" "c \<noteq> 13" "c \<noteq> 10" by auto
    from S ok have len: "length (rest (r s1)) + length ind \<le> length (rest (r s))" by simp
    from S have fr: "indents s1 = indents s" "toks s1 = toks s" "adv s s1" by simp_all
    from c have e1: "err s1 = None" by (simp add: peek_def)
    let ?lst = "indents s ! (length (indents s) - 1)"
    show ?thesis
    proof (cases "ind = ?lst")
      case True
      with si ok fr ne have sl: "scanLine s = afterIndent s1"
        by (simp add: scanLine_def calcIndent_def)
      from afterIndent_spec[OF c] obtain s' tok where
        a: "afterIndent s1 = Some s'" "adv s1 s'" "indents s' = indents s1"
           "toks s' = toks s1 @ [tok]" "Type tok = Annotation \<or> Type tok = LineString"
           "length (rest (r s')) < length (rest (r s1))" by blast
      from a(5) have b: "bal [tok] = 0" "Type tok \<noteq> EOF" by (cases tok; auto)+
      from fr a e1 have "adv s s'" by (auto intro: adv_trans)
      with sl a b fr ne len show ?thesis by auto
    next
      case neq: False
      show ?thesis
      proof (cases "prefix ?lst ind")
        case True
        with neq have "length ?lst < length ind"
          by (auto simp: prefix_def)
        then have li: "1 \<le> length ind" by simp
        let ?s2 = "addTok (Token Indent []) (s1\<lparr>indents := indents s1 @ [ind]\<rparr>)"
        from c have c2: "peek ?s2 c" by (simp add: addTok_def)
        from True neq si ok fr ne have sl: "scanLine s = afterIndent ?s2"
          by (simp add: scanLine_def calcIndent_def)
        from afterIndent_spec[OF c2 c(2,3)] obtain s' tok where
          a: "afterIndent ?s2 = Some s'" "adv ?s2 s'" "indents s' = indents ?s2"
             "toks s' = toks ?s2 @ [tok]" "Type tok = Annotation \<or> Type tok = LineString"
             "length (rest (r s')) < length (rest (r ?s2))" by blast
        from a(5) have b: "bal [tok] = 0" "Type tok \<noteq> EOF" by (cases tok; auto)+
        from a(2) have "adv s1 s'" by (simp add: addTok_def)
        with fr e1 have "adv s s'" by (auto intro: adv_trans)
        moreover from a(3) fr have "indents s' = indents s @ [ind]" by (simp add: addTok_def)
        moreover from a(4) fr have "toks s' = toks s @ [Token Indent [], tok]"
          by (simp add: addTok_def)
        moreover from a(6) have "length (rest (r s')) < length (rest (r s1))"
          by (simp add: addTok_def)
        ultimately show ?thesis using sl a(1) b len li ne by auto
      next
        case np: False
        obtain n ok2 where cl: "calcIndent_loop (indents s) ind 1 = (n, ok2)"
          by (cases "calcIndent_loop (indents s) ind 1")
        with np neq fr ne have ci: "calcIndent s1 ind = Some (n, ok2)"
          by (simp add: calcIndent_def)
        show ?thesis
        proof (cases ok2)
          case False
          with ci si ok have "scanLine s = Some (s1\<lparr>err := Some ErrMismatchIndent\<rparr>)"
            by (simp add: scanLine_def)
          moreover from fr(3) e1 have "adv s (s1\<lparr>err := Some ErrMismatchIndent\<rparr>)"
            by (auto simp: adv_def)
          ultimately show ?thesis using fr ne by auto
        next
          case True
          with cl calcIndent_loop_range[of "indents s" ind 1 n] obtain k where
            k: "n = - int k" "1 \<le> k" "k < length (indents s)" by auto
          let ?s' = "addToks k (Token Unindent [])
                       (s1\<lparr>indents := take (length (indents s) - k) (indents s)\<rparr>)"
          from k True ci si ok fr have sl: "scanLine s = Some ?s'"
            by (simp add: scanLine_def Let_def nat_diff_distrib')
          from k have tk: "take (length (indents s) - k) (indents s) \<noteq> []" by auto
          from k ne have hdk: "hd (take (length (indents s) - k) (indents s)) = hd (indents s)"
            by (cases "indents s") (auto simp: take_Cons' )
          from fr e1 have "adv s ?s'" "err ?s' = None" by (simp_all add: addToks_eq)
          moreover from len have "length (rest (r ?s')) \<le> length (rest (r s))"
            by (simp add: addToks_eq)
          ultimately show ?thesis using sl k tk hdk fr
            by (auto simp: addToks_eq)
        qed
      qed
    qed
  qed
qed


lemma handleEOF_eq:
  "handleEOF s =
     (if err s = Some ErrEOF then
        s\<lparr>toks := toks s @ replicate (length (indents s) - 1) (Token Unindent []) @ [Token EOF []],
          indents := take 1 (indents s)\<rparr>
      else s)"
  by (auto simp: handleEOF_def addToks_eq addTok_def)

lemma scanLine_decr:
  assumes "scanLine s = Some s'" and "err s' = None"
  shows "length (rest (r s')) + length (indents s') < length (rest (r s)) + length (indents s)"
proof (cases "indents s = []")
  case False
  from scanLine_spec[OF False] assms show ?thesis by auto
next
  case True
  obtain ind ok s1 where si: "scanIndent s = (ind, ok, s1)" by (cases "scanIndent s")
  note S = scanIndent_spec[OF si]
  from S True have "calcIndent s1 ind = None" by (simp add: calcIndent_def)
  with si assms S show ?thesis by (cases ok) (auto simp: scanLine_def)
qed

lemma Scan_cases:
  "Scan s =
     (case toks s of
        [] \<Rightarrow> None
      | t # ts \<Rightarrow>
          if ts \<noteq> [] then Some (True, s\<lparr>toks := ts\<rparr>)
          else if err s \<noteq> None then Some (False, s\<lparr>toks := []\<rparr>)
          else (case scanLine (s\<lparr>toks := []\<rparr>) of
              None \<Rightarrow> None
            | Some s2 \<Rightarrow> Some (toks (handleEOF s2) \<noteq> [], handleEOF s2)))"
  by (auto simp: Scan_def Let_def split: list.splits option.splits)

subsection \<open>The loop of a consumer\<close>

text \<open>
  A consumer calls \<open>for s.Scan() { ... s.Token() ... }\<close>. \<open>scan_all\<close> is that loop:
  the tokens it sees, in order, and the scanner when \<open>Scan\<close> has returned
  \<open>false\<close>; \<open>None\<close> if a call panics. Each call that returns \<open>true\<close> takes a
  token off the queue, or reads input, or pops the stack, or sets \<open>err\<close>, which gives
  the measure of the recursion.
\<close>

definition scan_measure :: "Scanner \<Rightarrow> nat" where
  "scan_measure s = (if err s = None then 1 + length (rest (r s)) + length (indents s) else 0)"

lemma Scan_decr:
  assumes "Scan s = Some (True, s1)"
  shows "scan_measure s1 < scan_measure s \<or>
         (scan_measure s1 = scan_measure s \<and> length (toks s1) < length (toks s))"
proof (cases "toks s")
  case Nil
  with assms show ?thesis by (simp add: Scan_cases)
next
  case (Cons t ts)
  show ?thesis
  proof (cases "ts = []")
    case False
    with Cons assms have "s1 = s\<lparr>toks := ts\<rparr>" by (simp add: Scan_cases)
    with Cons show ?thesis by (simp add: scan_measure_def)
  next
    case True
    with Cons assms have e: "err s = None" by (auto simp: Scan_cases split: if_splits)
    with True Cons assms obtain s2 where sl: "scanLine (s\<lparr>toks := []\<rparr>) = Some s2"
      and s1: "s1 = handleEOF s2"
      by (auto simp: Scan_cases split: option.splits if_splits)
    show ?thesis
    proof (cases "err s2 = None")
      case True
      with s1 have "s1 = s2" by (simp add: handleEOF_eq)
      with scanLine_decr[OF sl True] True e show ?thesis by (simp add: scan_measure_def)
    next
      case False
      with s1 have "err s1 \<noteq> None" by (auto simp add: handleEOF_eq)
      with e show ?thesis by (auto simp add: scan_measure_def)
    qed
  qed
qed

function scan_all :: "Scanner \<Rightarrow> (Token list \<times> Scanner) option" where
  "scan_all s =
     (case Scan s of
        None \<Rightarrow> None
      | Some (ok, s1) \<Rightarrow>
          if \<not> ok then Some ([], s1)
          else (case Token_of s1 of
              None \<Rightarrow> None
            | Some t \<Rightarrow>
                (case scan_all s1 of None \<Rightarrow> None | Some (ts, s2) \<Rightarrow> Some (t # ts, s2))))"
  by pat_completeness auto
termination
proof (relation "measures [scan_measure, \<lambda>s. length (toks s)]", goal_cases)
  case 1
  show ?case by simp
next
  case (2 s x ok s1 t)
  then have "Scan s = Some (True, s1)" by simp
  from Scan_decr[OF this] show ?case by auto
qed

declare scan_all.simps [simp del]

lemma bal_Cons: "bal (x # xs) = bal [x] + bal xs"
  by (simp add: bal_def)

lemma scan_all_err:
  "err s \<noteq> None \<Longrightarrow> toks s = t # ts \<Longrightarrow> scan_all s = Some (ts, s\<lparr>toks := []\<rparr>)"
proof (induction ts arbitrary: s t)
  case Nil
  then show ?case by (simp add: scan_all.simps[of s] Scan_cases)
next
  case (Cons a ts)
  from Cons.prems have sc: "Scan s = Some (True, s\<lparr>toks := a # ts\<rparr>)"
    by (simp add: Scan_cases)
  from Cons.prems have "scan_all (s\<lparr>toks := a # ts\<rparr>) = Some (ts, s\<lparr>toks := a # ts, toks := []\<rparr>)"
    by (intro Cons.IH) simp_all
  with sc show ?case by (simp add: scan_all.simps[of s] Token_of_def)
qed

lemma Scan_line:
  assumes tk: "toks s = [t]" and e: "err s = None" and ne: "indents s \<noteq> []"
  shows "\<exists>s3. Scan s = Some (toks s3 \<noteq> [], s3) \<and> adv s s3 \<and> indents s3 \<noteq> [] \<and>
           hd (indents s3) = hd (indents s) \<and>
           bal (toks s3) = int (length (indents s3)) - int (length (indents s)) \<and>
           (err s3 = None \<longrightarrow> toks s3 \<noteq> [] \<and> (\<forall>t \<in> set (toks s3). Type t \<noteq> EOF)) \<and>
           (err s3 = Some ErrEOF \<longrightarrow> indents s3 = [hd (indents s)] \<and>
              (\<exists>xs. toks s3 = xs @ [Token EOF []] \<and> (\<forall>t \<in> set xs. Type t \<noteq> EOF)))"
proof -
  let ?s1 = "s\<lparr>toks := []\<rparr>"
  from ne have "indents ?s1 \<noteq> []" by simp
  from scanLine_spec[OF this] obtain s2 new where
    sl: "scanLine ?s1 = Some s2" and a2: "adv s s2" and i2: "indents s2 \<noteq> []"
    and h2: "hd (indents s2) = hd (indents s)" and t2: "toks s2 = new"
    and b2: "bal new = int (length (indents s2)) - int (length (indents s))"
    and n2: "\<forall>t \<in> set new. Type t \<noteq> EOF"
    and p2: "err s2 = None \<longrightarrow> new \<noteq> []" by auto
  from tk e sl have sc: "Scan s = Some (toks (handleEOF s2) \<noteq> [], handleEOF s2)"
    by (simp add: Scan_cases)
  show ?thesis
  proof (cases "err s2 = Some ErrEOF")
    case False
    then have "handleEOF s2 = s2" by (simp add: handleEOF_eq)
    with sc a2 i2 h2 t2 b2 n2 p2 False show ?thesis by auto
  next
    case True
    let ?s3 = "s2\<lparr>toks := new @ replicate (length (indents s2) - 1) (Token Unindent []) @ [Token EOF []],
          indents := take 1 (indents s2)\<rparr>"
    from True t2 have h: "handleEOF s2 = ?s3" by (simp add: handleEOF_eq)
    from i2 have tk1: "take 1 (indents s2) = [hd (indents s2)]" by (cases "indents s2") simp_all
    from i2 have l2: "1 \<le> length (indents s2)" by (cases "indents s2") simp_all
    have "bal (toks ?s3) = int (length (indents ?s3)) - int (length (indents s))"
      using b2 tk1 l2 by simp
    moreover have "\<exists>xs. toks ?s3 = xs @ [Token EOF []] \<and> (\<forall>t \<in> set xs. Type t \<noteq> EOF)"
      using n2 by (intro exI[of _ "new @ replicate (length (indents s2) - 1) (Token Unindent [])"]) auto
    moreover have "adv s ?s3" using a2 by simp
    moreover have "err ?s3 = Some ErrEOF" using True by simp
    moreover have "toks ?s3 \<noteq> []" by simp
    ultimately show ?thesis using sc h tk1 h2 l2 by (intro exI[of _ ?s3]) simp
  qed
qed


text \<open>
  The invariant of the loop, from the scanner \<open>s0\<close> it started with: the queue holds the
  current token, the stack is not empty and its bottom is the empty indent, no
  \<open>EOF\<close> token is queued before \<open>io.EOF\<close> is met, and once it is met the stack is
  back to its bottom and the queue ends with the one \<open>EOF\<close> token. \<open>scan_post\<close> is
  what then holds of the tokens \<open>out\<close> the loop sees and of the scanner \<open>sf\<close> it ends
  with.
\<close>

definition scan_inv :: "Scanner \<Rightarrow> Scanner \<Rightarrow> bool" where
  "scan_inv s0 s =
     (toks s \<noteq> [] \<and> indents s \<noteq> [] \<and> hd (indents s) = [] \<and> adv s0 s \<and>
      (err s = None \<longrightarrow> (\<forall>t \<in> set (toks s). Type t \<noteq> EOF)) \<and>
      (err s = Some ErrEOF \<longrightarrow> indents s = [[]] \<and>
         (\<exists>xs. toks s = xs @ [Token EOF []] \<and> (\<forall>t \<in> set xs. Type t \<noteq> EOF))))"

definition scan_post :: "Scanner \<Rightarrow> Scanner \<Rightarrow> Token list \<Rightarrow> Scanner \<Rightarrow> bool" where
  "scan_post s0 s out sf =
     (adv s0 sf \<and> err sf \<noteq> None \<and> toks sf = [] \<and>
      (Err sf = None \<longrightarrow>
         bal out = bal (tl (toks s)) + 1 - int (length (indents s)) \<and> indents sf = [[]] \<and>
         (\<exists>xs. hd (toks s) # out = xs @ [Token EOF []] \<and> (\<forall>t \<in> set xs. Type t \<noteq> EOF))))"

lemma scan_all_inv:
  "scan_inv s0 s \<Longrightarrow> \<exists>out sf. scan_all s = Some (out, sf) \<and> scan_post s0 s out sf"
proof (induction s rule: scan_all.induct)
  case (1 s)
  note inv = "1.prems"
  from inv obtain t ts where tk: "toks s = t # ts" by (cases "toks s") (auto simp: scan_inv_def)
  from inv have ne: "indents s \<noteq> []" and hd0: "hd (indents s) = []" and a0: "adv s0 s"
    by (simp_all add: scan_inv_def)
  show ?case
  proof (cases "err s = None")
    case False
    from scan_all_err[OF False tk] have sa: "scan_all s = Some (ts, s\<lparr>toks := []\<rparr>)" .
    have "scan_post s0 s ts (s\<lparr>toks := []\<rparr>)"
      unfolding scan_post_def
    proof (intro conjI impI)
      show "adv s0 (s\<lparr>toks := []\<rparr>)" using a0 by simp
      show "err (s\<lparr>toks := []\<rparr>) \<noteq> None" using False by simp
      show "toks (s\<lparr>toks := []\<rparr>) = []" by simp
    next
      assume "Err (s\<lparr>toks := []\<rparr>) = None"
      with False have eof: "err s = Some ErrEOF" by (auto simp: Err_def split: if_splits)
      with inv have i1: "indents s = [[]]"
        and x: "\<exists>xs. toks s = xs @ [Token EOF []] \<and> (\<forall>t \<in> set xs. Type t \<noteq> EOF)"
        by (simp_all add: scan_inv_def)
      from i1 show "bal ts = bal (tl (toks s)) + 1 - int (length (indents s))"
        using tk by simp
      from i1 show "indents (s\<lparr>toks := []\<rparr>) = [[]]" by simp
      from x tk show "\<exists>xs. hd (toks s) # ts = xs @ [Token EOF []] \<and> (\<forall>t \<in> set xs. Type t \<noteq> EOF)"
        by simp
    qed
    with sa show ?thesis by blast
  next
    case e: True
    with inv tk have tne: "Type t \<noteq> EOF" and tsne: "\<forall>t \<in> set ts. Type t \<noteq> EOF"
      by (simp_all add: scan_inv_def)
    show ?thesis
    proof (cases "ts = []")
      case False
      let ?s1 = "s\<lparr>toks := ts\<rparr>"
      from False obtain t1 ts1 where ts: "ts = t1 # ts1" by (cases ts) auto
      from tk False have sc: "Scan s = Some (True, ?s1)" by (simp add: Scan_cases)
      from ts have tok: "Token_of ?s1 = Some t1" by (simp add: Token_of_def)
      from inv e tsne False have "scan_inv s0 ?s1" by (simp add: scan_inv_def)
      from "1.IH"[OF sc refl _ tok this] obtain out1 sf where
        sa1: "scan_all ?s1 = Some (out1, sf)" and post1: "scan_post s0 ?s1 out1 sf" by auto
      from sc tok sa1 have sa: "scan_all s = Some (t1 # out1, sf)"
        by (simp add: scan_all.simps[of s])
      have "scan_post s0 s (t1 # out1) sf"
        unfolding scan_post_def
      proof (intro conjI impI)
        from post1 show "adv s0 sf" "err sf \<noteq> None" "toks sf = []"
          by (simp_all add: scan_post_def)
      next
        assume E: "Err sf = None"
        with post1 ts have b1: "bal out1 = bal ts1 + 1 - int (length (indents s))"
          and i1: "indents sf = [[]]"
          and x1: "\<exists>xs. t1 # out1 = xs @ [Token EOF []] \<and> (\<forall>t \<in> set xs. Type t \<noteq> EOF)"
          by (simp_all add: scan_post_def)
        from b1 tk ts show "bal (t1 # out1) = bal (tl (toks s)) + 1 - int (length (indents s))"
          using bal_Cons[of t1 out1] bal_Cons[of t1 ts1] by simp
        from i1 show "indents sf = [[]]" .
        from x1 obtain xs where "t1 # out1 = xs @ [Token EOF []]" "\<forall>t \<in> set xs. Type t \<noteq> EOF"
          by blast
        with tne tk show "\<exists>xs. hd (toks s) # t1 # out1 = xs @ [Token EOF []] \<and>
            (\<forall>t \<in> set xs. Type t \<noteq> EOF)"
          by (intro exI[of _ "t # xs"]) simp
      qed
      with sa show ?thesis by blast
    next
      case True
      with tk have tk1: "toks s = [t]" by simp
      from Scan_line[OF tk1 e ne] obtain s3 where S3:
        "Scan s = Some (toks s3 \<noteq> [], s3) \<and> adv s s3 \<and> indents s3 \<noteq> [] \<and>
           hd (indents s3) = hd (indents s) \<and>
           bal (toks s3) = int (length (indents s3)) - int (length (indents s)) \<and>
           (err s3 = None \<longrightarrow> toks s3 \<noteq> [] \<and> (\<forall>t \<in> set (toks s3). Type t \<noteq> EOF)) \<and>
           (err s3 = Some ErrEOF \<longrightarrow> indents s3 = [hd (indents s)] \<and>
              (\<exists>xs. toks s3 = xs @ [Token EOF []] \<and> (\<forall>t \<in> set xs. Type t \<noteq> EOF)))"
        by (rule exE)
      from S3 have
        sc: "Scan s = Some (toks s3 \<noteq> [], s3)" and a3: "adv s s3" and i3: "indents s3 \<noteq> []"
        and h3: "hd (indents s3) = hd (indents s)"
        and b3: "bal (toks s3) = int (length (indents s3)) - int (length (indents s))"
        and n3: "err s3 = None \<longrightarrow> toks s3 \<noteq> [] \<and> (\<forall>t \<in> set (toks s3). Type t \<noteq> EOF)"
        and f3: "err s3 = Some ErrEOF \<longrightarrow> indents s3 = [hd (indents s)] \<and>
              (\<exists>xs. toks s3 = xs @ [Token EOF []] \<and> (\<forall>t \<in> set xs. Type t \<noteq> EOF))"
        by simp_all
      from a0 a3 e have a03: "adv s0 s3" by (auto intro: adv_trans)
      show ?thesis
      proof (cases "toks s3 = []")
        case True
        with sc have sa: "scan_all s = Some ([], s3)" by (simp add: scan_all.simps[of s])
        from True n3 f3 have "err s3 \<noteq> None" "err s3 \<noteq> Some ErrEOF" by auto
        then have "Err s3 \<noteq> None" by (simp add: Err_def)
        with a03 True \<open>err s3 \<noteq> None\<close> have "scan_post s0 s [] s3" by (auto simp add: scan_post_def)
        with sa show ?thesis by blast
      next
        case False
        then obtain t3 ts3 where tk3: "toks s3 = t3 # ts3" by (cases "toks s3") auto
        from False sc have sc': "Scan s = Some (True, s3)" by simp
        from tk3 have tok: "Token_of s3 = Some t3" by (simp add: Token_of_def)
        from False i3 h3 hd0 a03 n3 f3 have "scan_inv s0 s3" by (simp add: scan_inv_def)
        from "1.IH"[OF sc' refl _ tok this] obtain out3 sf where
          sa3: "scan_all s3 = Some (out3, sf)" and post3: "scan_post s0 s3 out3 sf" by auto
        from sc' tok sa3 have sa: "scan_all s = Some (t3 # out3, sf)"
          by (simp add: scan_all.simps[of s])
        have "scan_post s0 s (t3 # out3) sf"
          unfolding scan_post_def
        proof (intro conjI impI)
          from post3 show "adv s0 sf" "err sf \<noteq> None" "toks sf = []"
            by (simp_all add: scan_post_def)
        next
          assume E: "Err sf = None"
          with post3 tk3 have b1: "bal out3 = bal ts3 + 1 - int (length (indents s3))"
            and i1: "indents sf = [[]]"
            and x1: "\<exists>xs. t3 # out3 = xs @ [Token EOF []] \<and> (\<forall>t \<in> set xs. Type t \<noteq> EOF)"
            by (simp_all add: scan_post_def)
          from b1 b3 tk3 tk1 show "bal (t3 # out3) = bal (tl (toks s)) + 1 - int (length (indents s))"
            using bal_Cons[of t3 out3] bal_Cons[of t3 ts3] by simp
          from i1 show "indents sf = [[]]" .
          from x1 obtain xs where "t3 # out3 = xs @ [Token EOF []]" "\<forall>t \<in> set xs. Type t \<noteq> EOF"
            by blast
          with tne tk show "\<exists>xs. hd (toks s) # t3 # out3 = xs @ [Token EOF []] \<and>
              (\<forall>t \<in> set xs. Type t \<noteq> EOF)"
            by (intro exI[of _ "t # xs"]) simp
        qed
        with sa show ?thesis by blast
      qed
    qed
  qed
qed


lemma scan_inv_New: "scan_inv (NewScanner input) (NewScanner input)"
  by (simp add: scan_inv_def NewScanner_def adv_def)

subsection \<open>The claims about the scanner\<close>

text \<open>
  Claim C4. For every input the loop of a consumer ends without a panic. When it ends with
  no fatal error (\<open>Err\<close> reports none), the tokens it has seen hold as many
  \<open>Indent\<close> as \<open>Unindent\<close> tokens, the \<open>Unindent\<close> tokens added at the end of the
  input included; the last token is the \<open>EOF\<close> token and no other token is one; and the
  stack of indents is \<open>[""]\<close>, the list of the one empty indent.
\<close>

theorem indent_balance:
  "\<exists>out sf. scan_all (NewScanner input) = Some (out, sf) \<and>
     (Err sf = None \<longrightarrow>
        length (filter (\<lambda>t. Type t = Indent) out) = length (filter (\<lambda>t. Type t = Unindent) out) \<and>
        indents sf = [[]] \<and>
        (\<exists>ts. out = ts @ [Token EOF []] \<and> (\<forall>t \<in> set ts. Type t \<noteq> EOF)))"
proof -
  let ?s0 = "NewScanner input"
  from scan_all_inv[OF scan_inv_New] obtain out sf where
    sa: "scan_all ?s0 = Some (out, sf)" and post: "scan_post ?s0 ?s0 out sf" by blast
  have "length (filter (\<lambda>t. Type t = Indent) out) = length (filter (\<lambda>t. Type t = Unindent) out) \<and>
        indents sf = [[]] \<and>
        (\<exists>ts. out = ts @ [Token EOF []] \<and> (\<forall>t \<in> set ts. Type t \<noteq> EOF))"
    if E: "Err sf = None"
  proof -
    from post E have b: "bal out = 0" and i: "indents sf = [[]]"
      and x: "\<exists>xs. Token SOF [] # out = xs @ [Token EOF []] \<and> (\<forall>t \<in> set xs. Type t \<noteq> EOF)"
      by (simp_all add: scan_post_def NewScanner_def)
    from x obtain xs where xs: "Token SOF [] # out = xs @ [Token EOF []]"
      "\<forall>t \<in> set xs. Type t \<noteq> EOF" by blast
    from xs(1) obtain ts where "xs = Token SOF [] # ts" by (cases xs) auto
    with xs have "out = ts @ [Token EOF []]" "\<forall>t \<in> set ts. Type t \<noteq> EOF" by auto
    with b i show ?thesis by (auto simp: bal_def)
  qed
  with sa show ?thesis by (intro exI[of _ out] exI[of _ sf]) simp
qed

theorem indent_balance_witness:
  "scan_all (NewScanner [97, 10, 32, 32, 98, 10, 32, 32, 32, 32, 99, 10, 32, 32, 100, 10]) =
     Some ([Token LineString [97], Token Indent [], Token LineString [98], Token Indent [],
            Token LineString [99], Token Unindent [], Token Unindent [], Token LineString [100],
            Token EOF []],
           \<lparr>r = \<lparr>rest = [], last_read = None\<rparr>, ch = 0, indents = [[]], toks = [],
            err = Some ErrEOF\<rparr>) \<and>
   Err \<lparr>r = \<lparr>rest = [], last_read = None\<rparr>, ch = 0, indents = [[]], toks = [],
            err = Some ErrEOF\<rparr> = None"
proof -
  have e: "scan_all (NewScanner [97, 10, 32, 32, 98, 10, 32, 32, 32, 32, 99, 10, 32, 32, 100, 10]) =
     Some ([Token LineString [97], Token Indent [], Token LineString [98], Token Indent [],
            Token LineString [99], Token Unindent [], Token Unindent [], Token LineString [100],
            Token EOF []],
           \<lparr>r = \<lparr>rest = [], last_read = None\<rparr>, ch = 0, indents = [[]], toks = [],
            err = Some ErrEOF\<rparr>)"
    by code_simp
  from indent_balance[of "[97, 10, 32, 32, 98, 10, 32, 32, 32, 32, 99, 10, 32, 32, 100, 10]"] e
  show ?thesis by (simp add: Err_def)
qed

text \<open>
  Claim C5. Let \<open>scanIndent\<close> measure the indent of a line as \<open>indent\<close>, neither the top
  of the stack nor an extension of it. \<open>scanLine\<close> takes the first entry equal to
  \<open>indent\<close> from the top downward: when that entry is \<open>k\<close> places below the top, the
  stack loses exactly its \<open>k\<close> top entries and exactly \<open>k\<close> \<open>Unindent\<close> tokens are
  added to the queue, and nothing else changes. When no entry of the stack is equal to
  \<open>indent\<close>, \<open>scanLine\<close> sets the fatal error "mismatch indent", which \<open>Err\<close>
  reports, and changes neither the queue nor the stack.
\<close>

theorem scanLine_unindent_or_mismatch:
  assumes si: "scanIndent s = (indent, True, s1)"
    and ne: "indents s \<noteq> []"
    and neq: "indent \<noteq> last (indents s)"
    and np: "\<not> prefix (last (indents s)) indent"
  shows "(1 \<le> k \<and> k < length (indents s) \<and>
              indents s ! (length (indents s) - 1 - k) = indent \<and>
              (\<forall>j. 1 \<le> j \<and> j < k \<longrightarrow> indents s ! (length (indents s) - 1 - j) \<noteq> indent) \<longrightarrow>
            scanLine s =
              Some (s1\<lparr>indents := take (length (indents s) - k) (indents s),
                       toks := toks s @ replicate k (Token Unindent [])\<rparr>)) \<and>
         (indent \<notin> set (indents s) \<longrightarrow>
            scanLine s = Some (s1\<lparr>err := Some ErrMismatchIndent\<rparr>) \<and>
            Err (s1\<lparr>err := Some ErrMismatchIndent\<rparr>) = Some ErrMismatchIndent \<and>
            toks s1 = toks s \<and> indents s1 = indents s)"
proof -
  note S = scanIndent_spec[OF si]
  from S have fr: "indents s1 = indents s" "toks s1 = toks s" by simp_all
  from ne have lst: "last (indents s) = indents s ! (length (indents s) - 1)"
    by (rule last_conv_nth)
  from neq np ne fr lst have ci:
    "calcIndent s1 indent = Some (calcIndent_loop (indents s) indent 1)"
    by (simp add: calcIndent_def)
  have found: "scanLine s =
              Some (s1\<lparr>indents := take (length (indents s) - k) (indents s),
                       toks := toks s @ replicate k (Token Unindent [])\<rparr>)"
    if k: "1 \<le> k" "k < length (indents s)" "indents s ! (length (indents s) - 1 - k) = indent"
      "\<forall>j. 1 \<le> j \<and> j < k \<longrightarrow> indents s ! (length (indents s) - 1 - j) \<noteq> indent" for k
  proof -
    from calcIndent_loop_found[OF k(1,2,3,4)]
    have "calcIndent_loop (indents s) indent 1 = (- int k, True)" .
    with ci have "calcIndent s1 indent = Some (- int k, True)" by simp
    with si k(1,2) fr show ?thesis
      by (simp add: scanLine_def Let_def addToks_eq nat_diff_distrib')
  qed
  have mismatch: "scanLine s = Some (s1\<lparr>err := Some ErrMismatchIndent\<rparr>)"
    if "indent \<notin> set (indents s)"
  proof -
    from that have "\<forall>j. 1 \<le> j \<and> j < length (indents s) \<longrightarrow>
        indents s ! (length (indents s) - 1 - j) \<noteq> indent"
      by (metis nth_mem diff_less less_nat_zero_code not_gr_zero zero_less_one diff_less_mono2
          length_greater_0_conv ne less_imp_diff_less)
    from calcIndent_loop_none[OF this] ci
    have "calcIndent s1 indent = Some (0, False)" by simp
    with si show ?thesis by (simp add: scanLine_def)
  qed
  from found[of k] mismatch fr show ?thesis by (simp add: Err_def)
qed


theorem scanLine_unindent_or_mismatch_witness:
  "scanLine \<lparr>r = \<lparr>rest = [32, 32, 100, 10], last_read = None\<rparr>, ch = 0,
             indents = [[], [32, 32], [32, 32, 32, 32]], toks = [Token LineString [99]],
             err = None\<rparr> =
     Some \<lparr>r = \<lparr>rest = [100, 10], last_read = None\<rparr>, ch = 100,
            indents = [[], [32, 32]], toks = [Token LineString [99], Token Unindent []],
            err = None\<rparr> \<and>
   scanLine \<lparr>r = \<lparr>rest = [32, 100, 10], last_read = None\<rparr>, ch = 0,
             indents = [[], [32, 32]], toks = [Token LineString [98]], err = None\<rparr> =
     Some \<lparr>r = \<lparr>rest = [100, 10], last_read = None\<rparr>, ch = 100,
            indents = [[], [32, 32]], toks = [Token LineString [98]],
            err = Some ErrMismatchIndent\<rparr>"
proof -
  let ?sA = "\<lparr>r = \<lparr>rest = [32, 32, 100, 10], last_read = None\<rparr>, ch = 0,
             indents = [[], [32, 32], [32, 32, 32, 32]], toks = [Token LineString [99]],
             err = None\<rparr>"
  let ?sA1 = "\<lparr>r = \<lparr>rest = [100, 10], last_read = None\<rparr>, ch = 100,
             indents = [[], [32, 32], [32, 32, 32, 32]], toks = [Token LineString [99]],
             err = None\<rparr>"
  let ?sB = "\<lparr>r = \<lparr>rest = [32, 100, 10], last_read = None\<rparr>, ch = 0,
             indents = [[], [32, 32]], toks = [Token LineString [98]], err = None\<rparr>"
  let ?sB1 = "\<lparr>r = \<lparr>rest = [100, 10], last_read = None\<rparr>, ch = 100,
             indents = [[], [32, 32]], toks = [Token LineString [98]], err = None\<rparr>"
  have a: "scanIndent ?sA = ([32, 32], True, ?sA1)" by code_simp
  have b: "scanIndent ?sB = ([32], True, ?sB1)" by code_simp
  from scanLine_unindent_or_mismatch[OF a, of 1] have "scanLine ?sA = Some (?sA1\<lparr>indents := take (3 - 1) (indents ?sA),
                       toks := toks ?sA @ replicate 1 (Token Unindent [])\<rparr>)"
    by (simp add: numeral_3_eq_3)
  moreover from scanLine_unindent_or_mismatch[OF b]
  have "scanLine ?sB = Some (?sB1\<lparr>err := Some ErrMismatchIndent\<rparr>)" by simp
  ultimately show ?thesis by (simp add: numeral_3_eq_3)
qed




end
